theory Spec2Isabelle
  imports Main "HOL-Library.Sublist"
begin

section \<open>Text and paths\<close>

text \<open>
  The program is \<^verbatim>\<open>exercise-merger.py\<close>. A Python \<^verbatim>\<open>str\<close> is modelled as a
  \<^typ>\<open>string\<close>; a character stands for the code point of the same number (0 to 255).
  The backslash has no literal form inside a string, so it gets a name.
\<close>

definition bs :: char where
  "bs = CHR 0x5C"

subsection \<open>The part of pathlib the program uses (POSIX flavour, Python 3.10 to 3.13)\<close>

text \<open>
  A \<^verbatim>\<open>Path\<close> object is its root (empty, one slash or two) and its components.
  \<^verbatim>\<open>Path(s)\<close> splits \<open>s\<close> at slashes and drops empty and single-dot components;
  \<^verbatim>\<open>..\<close> is kept. The drive is always empty on POSIX.
\<close>

record path =
  root :: string
  parts :: "string list"

text \<open>\<^verbatim>\<open>str.split(sep)\<close> for a one-character separator.\<close>

fun split_on :: "char \<Rightarrow> string \<Rightarrow> string list" where
  "split_on sep [] = [[]]"
| "split_on sep (c # cs) =
     (if c = sep then [] # split_on sep cs
      else (case split_on sep cs of [] \<Rightarrow> [[c]] | x # xs \<Rightarrow> (c # x) # xs))"

definition splitroot :: "string \<Rightarrow> string \<times> string" where
  "splitroot part =
     (if part \<noteq> [] \<and> hd part = CHR ''/'' then
        (let stripped_part = dropWhile (\<lambda>c. c = CHR ''/'') part in
         if length part - length stripped_part = 2 then (''//'', stripped_part)
         else (''/'', stripped_part))
      else ([], part))"

definition Path :: "string \<Rightarrow> path" where
  "Path s =
     (case splitroot s of
        (r, rel) \<Rightarrow>
          \<lparr>root = r, parts = filter (\<lambda>x. x \<noteq> [] \<and> x \<noteq> ''.'') (split_on CHR ''/'' rel)\<rparr>)"

definition path_name :: "path \<Rightarrow> string" where
  "path_name p = (if parts p = [] then [] else last (parts p))"

text \<open>\<^verbatim>\<open>str.rfind\<close> for one character: the last index holding it, or \<open>-1\<close>.\<close>

definition rfind :: "string \<Rightarrow> char \<Rightarrow> int" where
  "rfind s c =
     (if c \<in> set s
      then int (length s) - 1 - int (length (takeWhile (\<lambda>x. x \<noteq> c) (rev s)))
      else - 1)"

definition path_suffix :: "path \<Rightarrow> string" where
  "path_suffix p =
     (let name = path_name p; i = rfind name CHR ''.'' in
      if 0 < i \<and> i < int (length name) - 1 then drop (nat i) name else [])"

text \<open>Both failures of \<^verbatim>\<open>with_suffix\<close> are a \<^verbatim>\<open>ValueError\<close> in Python.\<close>

datatype exn = ValueError_invalid_suffix string | ValueError_empty_name path

definition with_suffix :: "path \<Rightarrow> string \<Rightarrow> exn + path" where
  "with_suffix p sfx =
     (if CHR ''/'' \<in> set sfx then Inl (ValueError_invalid_suffix sfx)
      else if (sfx \<noteq> [] \<and> hd sfx \<noteq> CHR ''.'') \<or> sfx = ''.''
        then Inl (ValueError_invalid_suffix sfx)
      else
        (let name = path_name p in
         if name = [] then Inl (ValueError_empty_name p)
         else
           (let old_suffix = path_suffix p;
                name' = (if old_suffix = [] then name @ sfx
                         else take (length name - length old_suffix) name @ sfx)
            in Inr (p\<lparr>parts := butlast (parts p) @ [name']\<rparr>))))"

subsection \<open>ensure_tex_extension\<close>

definition ensure_tex_extension :: "string \<Rightarrow> exn + path" where
  "ensure_tex_extension path_str =
     (let p = Path path_str in
      if path_suffix p \<noteq> ''.tex'' then with_suffix p ''.tex'' else Inr p)"

section \<open>The filesystem, the warnings and the one global flag\<close>

text \<open>
  What the program can observe of the filesystem: for every path, whether there is
  nothing, a directory, a file that reads as text, or a file whose read raises (with the
  text of the exception). Relative paths are relative to the working directory.
\<close>

datatype node = NoEntry | Directory | RegularFile string | UnreadableFile string

type_synonym filesystem = "path \<Rightarrow> node"

definition path_exists :: "filesystem \<Rightarrow> path \<Rightarrow> bool" where
  "path_exists fs p = (fs p \<noteq> NoEntry)"

definition is_file :: "filesystem \<Rightarrow> path \<Rightarrow> bool" where
  "is_file fs p = (case fs p of RegularFile c \<Rightarrow> True | UnreadableFile e \<Rightarrow> True | _ \<Rightarrow> False)"

definition read_text :: "filesystem \<Rightarrow> path \<Rightarrow> string + string" where
  "read_text fs p =
     (case fs p of
        RegularFile c \<Rightarrow> Inr c
      | UnreadableFile e \<Rightarrow> Inl e
      | Directory \<Rightarrow> Inl ''IsADirectoryError''
      | NoEntry \<Rightarrow> Inl ''FileNotFoundError'')"

text \<open>Every call of \<^verbatim>\<open>logging.warning\<close> appends one record to the log.\<close>

datatype warning =
    MissingFile path
  | CouldNotRead path string
  | MissingDirectory path
  | ReachedMaxPasses int

record state =
  MISSING_DIR_WARNED :: bool
  logged :: "warning list"

definition initial_state :: state where
  "initial_state = \<lparr>MISSING_DIR_WARNED = False, logged = []\<rparr>"

definition EXERCISES_DIR :: path where
  "EXERCISES_DIR = Path ''exercises''"

section \<open>The resolver\<close>

definition load_file_if_exists ::
  "filesystem \<Rightarrow> string \<Rightarrow> state \<Rightarrow> (exn + string option) \<times> state" where
  "load_file_if_exists fs rel_path_str st =
     (case ensure_tex_extension rel_path_str of
        Inl e \<Rightarrow> (Inl e, st)
      | Inr p \<Rightarrow>
          if \<not> is_file fs p then (Inr None, st\<lparr>logged := logged st @ [MissingFile p]\<rparr>)
          else
            (case read_text fs p of
               Inr c \<Rightarrow> (Inr (Some c), st)
             | Inl e \<Rightarrow> (Inr None, st\<lparr>logged := logged st @ [CouldNotRead p e]\<rparr>)))"

definition warn_missing_exercises_dir_once :: "state \<Rightarrow> state" where
  "warn_missing_exercises_dir_once st =
     (if \<not> MISSING_DIR_WARNED st
      then st\<lparr>logged := logged st @ [MissingDirectory EXERCISES_DIR],
              MISSING_DIR_WARNED := True\<rparr>
      else st)"

text \<open>
  The callback \<^verbatim>\<open>repl\<close>, written twice in the source with the same body. Its
  arguments are \<^verbatim>\<open>match.group(0)\<close> and \<^verbatim>\<open>match.group(1)\<close>.
\<close>

definition repl :: "filesystem \<Rightarrow> string \<Rightarrow> string \<Rightarrow> state \<Rightarrow> (exn + string) \<times> state" where
  "repl fs group0 group1 st =
     (if \<not> path_exists fs EXERCISES_DIR
      then (Inr group0, warn_missing_exercises_dir_once st)
      else
        (case load_file_if_exists fs group1 st of
           (Inl e, st') \<Rightarrow> (Inl e, st')
         | (Inr contents, st') \<Rightarrow>
             (Inr (case contents of Some c \<Rightarrow> c | None \<Rightarrow> group0), st')))"

section \<open>Regular-expression substitution\<close>

fun after_prefix :: "string \<Rightarrow> string \<Rightarrow> string option" where
  "after_prefix [] ys = Some ys"
| "after_prefix (x # xs) [] = None"
| "after_prefix (x # xs) (y # ys) = (if x = y then after_prefix xs ys else None)"

text \<open>
  A match of \<^verbatim>\<open>\\NAME\{([^}]+)\}\<close> at the start of the text: the literal opener,
  the longest run of characters other than the closing brace, which must not be empty,
  and the closing brace. The result is group 0, group 1 and the text after the match.
\<close>

definition match_input :: "string \<Rightarrow> string \<Rightarrow> (string \<times> string \<times> string) option" where
  "match_input name text =
     (case after_prefix (bs # name @ ''{'') text of
        None \<Rightarrow> None
      | Some body \<Rightarrow>
          (let arg = takeWhile (\<lambda>c. c \<noteq> CHR ''}'') body;
               tail = dropWhile (\<lambda>c. c \<noteq> CHR ''}'') body
           in if arg \<noteq> [] \<and> tail \<noteq> []
              then Some (bs # name @ ''{'' @ arg @ ''}'', arg, tl tail)
              else None))"

lemma after_prefix_Some: "after_prefix p t = Some r \<longleftrightarrow> t = p @ r"
  by (induction p t rule: after_prefix.induct) auto

lemma after_prefix_None: "after_prefix p t = None \<longleftrightarrow> \<not> prefix p t"
  by (induction p t rule: after_prefix.induct) auto

lemma match_input_Some:
  assumes "match_input name text = Some (g0, g1, rest)"
  shows "text = g0 @ rest" and "g0 = bs # name @ ''{'' @ g1 @ ''}''"
    and "g1 \<noteq> []" and "CHR ''}'' \<notin> set g1"
proof -
  from assms obtain body where b: "after_prefix (bs # name @ ''{'') text = Some body"
    by (auto simp: match_input_def split: option.splits)
  let ?arg = "takeWhile (\<lambda>c. c \<noteq> CHR ''}'') body"
  let ?tail = "dropWhile (\<lambda>c. c \<noteq> CHR ''}'') body"
  from assms b have c: "?arg \<noteq> []" "?tail \<noteq> []" "g0 = bs # name @ ''{'' @ ?arg @ ''}''"
    "g1 = ?arg" "rest = tl ?tail"
    by (auto simp: match_input_def Let_def split: if_splits)
  from c(2) have "hd ?tail = CHR ''}''"
    using hd_dropWhile [of "\<lambda>c. c \<noteq> CHR ''}''" body] by auto
  with c(2) have "?tail = CHR ''}'' # tl ?tail"
    by (cases ?tail) auto
  then have "body = ?arg @ CHR ''}'' # tl ?tail"
    using takeWhile_dropWhile_id [of "\<lambda>c. c \<noteq> CHR ''}''" body] by simp
  with b c show "text = g0 @ rest"
    by (simp add: after_prefix_Some)
  from c show "g0 = bs # name @ ''{'' @ g1 @ ''}''" and "g1 \<noteq> []"
    by simp_all
  show "CHR ''}'' \<notin> set g1"
    using c(4) by (auto dest: set_takeWhileD)
qed

text \<open>
  \<^verbatim>\<open>pattern.sub(repl, text)\<close> scans the text from the left; at a match it calls the
  callback and goes on after the match, elsewhere it copies one character. The matches do
  not depend on what the callback returns, so the scan is written first (the pieces of
  the text) and the callbacks run over the pieces in order.
\<close>

datatype piece = Plain char | Occurrence string string

function pieces :: "string \<Rightarrow> string \<Rightarrow> piece list" where
  "pieces name [] = []"
| "pieces name (c # cs) =
     (case match_input name (c # cs) of
        Some (g0, g1, rest) \<Rightarrow> Occurrence g0 g1 # pieces name rest
      | None \<Rightarrow> Plain c # pieces name cs)"
  by pat_completeness auto
termination
proof (relation "measure (\<lambda>(name, text). length text)")
  fix name :: string and c :: char and cs :: string and x2 x y xa ya
  assume "match_input name (c # cs) = Some x2" and "(x, y) = x2" and "(xa, ya) = y"
  then have "match_input name (c # cs) = Some (x, xa, ya)"
    by simp
  from match_input_Some(1,2) [OF this] have "length ya < length (c # cs)"
    by (metis add_lessD1 length_Cons length_append lessI less_add_same_cancel2 less_imp_add_positive linorder_neqE_nat not_add_less2 zero_less_Suc)
  then show "((name, ya), (name, c # cs)) \<in> measure (\<lambda>(name, text). length text)"
    by simp
qed simp_all

text \<open>An exception raised by a callback ends the substitution; the log written so far stays.\<close>

fun sub_pieces ::
  "(string \<Rightarrow> string \<Rightarrow> state \<Rightarrow> (exn + string) \<times> state) \<Rightarrow> piece list \<Rightarrow> state
     \<Rightarrow> (exn + string) \<times> state" where
  "sub_pieces f [] st = (Inr [], st)"
| "sub_pieces f (Plain c # ps) st =
     (case sub_pieces f ps st of
        (Inl e, st') \<Rightarrow> (Inl e, st')
      | (Inr out, st') \<Rightarrow> (Inr (c # out), st'))"
| "sub_pieces f (Occurrence g0 g1 # ps) st =
     (case f g0 g1 st of
        (Inl e, st1) \<Rightarrow> (Inl e, st1)
      | (Inr r, st1) \<Rightarrow>
          (case sub_pieces f ps st1 of
             (Inl e, st2) \<Rightarrow> (Inl e, st2)
           | (Inr out, st2) \<Rightarrow> (Inr (r @ out), st2)))"

definition re_sub_input ::
  "string \<Rightarrow> (string \<Rightarrow> string \<Rightarrow> state \<Rightarrow> (exn + string) \<times> state) \<Rightarrow> string \<Rightarrow> state
     \<Rightarrow> (exn + string) \<times> state" where
  "re_sub_input name f text st = sub_pieces f (pieces name text) st"

definition replace_exsetinput :: "filesystem \<Rightarrow> string \<Rightarrow> state \<Rightarrow> (exn + string) \<times> state" where
  "replace_exsetinput fs text st = re_sub_input ''exsetinput'' (repl fs) text st"

definition replace_exinput :: "filesystem \<Rightarrow> string \<Rightarrow> state \<Rightarrow> (exn + string) \<times> state" where
  "replace_exinput fs text st = re_sub_input ''exinput'' (repl fs) text st"

subsection \<open>The label tokens\<close>

text \<open>
  \<^verbatim>\<open>\w\<close> of a \<^verbatim>\<open>str\<close> pattern is the underscore and what Unicode calls
  alphanumeric; below 256 these are the ASCII letters and digits and the code points
  listed here.
\<close>

definition is_word_char :: "char \<Rightarrow> bool" where
  "is_word_char c =
     (let n = (of_char c :: nat) in
      (48 \<le> n \<and> n \<le> 57) \<or> (65 \<le> n \<and> n \<le> 90) \<or> n = 95 \<or> (97 \<le> n \<and> n \<le> 122)
      \<or> n = 170 \<or> n = 178 \<or> n = 179 \<or> n = 181 \<or> n = 185 \<or> n = 186
      \<or> n = 188 \<or> n = 189 \<or> n = 190
      \<or> (192 \<le> n \<and> n \<le> 214) \<or> (216 \<le> n \<and> n \<le> 246) \<or> 248 \<le> n)"

text \<open>
  A match of a literal followed by \<^verbatim>\<open>\b\<close>: the literal, and then a word boundary,
  which is there when exactly one of the last character of the literal and the next
  character of the text (if any) is a word character.
\<close>

definition match_token :: "string \<Rightarrow> string \<Rightarrow> string option" where
  "match_token tok text =
     (case after_prefix tok text of
        None \<Rightarrow> None
      | Some rest \<Rightarrow>
          if tok \<noteq> [] \<and> (is_word_char (last tok) \<noteq> (rest \<noteq> [] \<and> is_word_char (hd rest)))
          then Some rest else None)"

lemma match_token_Some:
  "match_token tok text = Some rest \<Longrightarrow> text = tok @ rest \<and> tok \<noteq> []"
  by (auto simp: match_token_def after_prefix_Some split: option.splits if_splits)

function re_sub_token :: "string \<Rightarrow> string \<Rightarrow> string \<Rightarrow> string" where
  "re_sub_token tok lab [] = []"
| "re_sub_token tok lab (c # cs) =
     (case match_token tok (c # cs) of
        Some rest \<Rightarrow> lab @ re_sub_token tok lab rest
      | None \<Rightarrow> c # re_sub_token tok lab cs)"
  by pat_completeness auto
termination
proof (relation "measure (\<lambda>(tok, lab, text). length text)")
  fix tok lab :: string and c :: char and cs rest :: string
  assume "match_token tok (c # cs) = Some rest"
  from match_token_Some [OF this] have "length rest < length (c # cs)"
    by (metis length_append length_greater_0_conv less_add_same_cancel2)
  then show "((tok, lab, rest), (tok, lab, c # cs)) \<in> measure (\<lambda>(tok, lab, text). length text)"
    by simp
qed simp_all

definition replace_print_tokens :: "string \<Rightarrow> string" where
  "replace_print_tokens text =
     (let text1 = re_sub_token (bs # ''printconcepts'') ''Terms and Concepts'' text;
          text2 = re_sub_token (bs # ''printproblems'') ''Problems'' text1;
          text3 = re_sub_token (bs # ''printreview'') ''Review'' text2
      in text3)"

section \<open>The expander\<close>

definition process_once :: "filesystem \<Rightarrow> string \<Rightarrow> state \<Rightarrow> (exn + string) \<times> state" where
  "process_once fs input_text st =
     (case replace_exsetinput fs input_text st of
        (Inl e, st1) \<Rightarrow> (Inl e, st1)
      | (Inr t1, st1) \<Rightarrow>
          (case replace_exinput fs t1 st1 of
             (Inl e, st2) \<Rightarrow> (Inl e, st2)
           | (Inr t2, st2) \<Rightarrow> (Inr (replace_print_tokens t2), st2)))"

text \<open>
  The \<^verbatim>\<open>for\<close> loop of \<^verbatim>\<open>process_with_recursion\<close> with the number of passes left:
  it ends by the \<^verbatim>\<open>return\<close> inside, by running out of passes, or by an exception.
\<close>

datatype loop_exit = Returned string | Exhausted string

fun for_passes :: "filesystem \<Rightarrow> nat \<Rightarrow> string \<Rightarrow> state \<Rightarrow> (exn + loop_exit) \<times> state" where
  "for_passes fs 0 prev st = (Inr (Exhausted prev), st)"
| "for_passes fs (Suc n) prev st =
     (case process_once fs prev st of
        (Inl e, st') \<Rightarrow> (Inl e, st')
      | (Inr cur, st') \<Rightarrow>
          if cur = prev then (Inr (Returned cur), st') else for_passes fs n cur st')"

text \<open>\<^verbatim>\<open>range(max_passes)\<close> is empty for a negative \<^verbatim>\<open>max_passes\<close>.\<close>

definition process_with_recursion ::
  "filesystem \<Rightarrow> string \<Rightarrow> int \<Rightarrow> state \<Rightarrow> (exn + string) \<times> state" where
  "process_with_recursion fs input_text max_passes st =
     (case for_passes fs (nat max_passes) input_text st of
        (Inl e, st') \<Rightarrow> (Inl e, st')
      | (Inr (Returned cur), st') \<Rightarrow> (Inr cur, st')
      | (Inr (Exhausted prev), st') \<Rightarrow>
          (Inr prev, st'\<lparr>logged := logged st' @ [ReachedMaxPasses max_passes]\<rparr>))"

section \<open>Notions used to state the properties\<close>

text \<open>Applying a function to the text of a result; an exception passes through.\<close>

definition map_out :: "(string \<Rightarrow> string) \<Rightarrow> (exn + string) \<times> state \<Rightarrow> (exn + string) \<times> state" where
  "map_out g r = (case r of (Inl e, st) \<Rightarrow> (Inl e, st) | (Inr out, st) \<Rightarrow> (Inr (g out), st))"

text \<open>The text of a content-input directive.\<close>

definition directive :: "string \<Rightarrow> string \<Rightarrow> string" where
  "directive name arg = bs # name @ ''{'' @ arg @ ''}''"

text \<open>
  A text holds no directive when none of the two openers and none of the three label
  tokens occurs in it.
\<close>

definition directive_free :: "string \<Rightarrow> bool" where
  "directive_free t \<longleftrightarrow>
     \<not> sublist (bs # ''exsetinput{'') t \<and> \<not> sublist (bs # ''exinput{'') t
     \<and> \<not> sublist (bs # ''printconcepts'') t \<and> \<not> sublist (bs # ''printproblems'') t
     \<and> \<not> sublist (bs # ''printreview'') t"

text \<open>
  The specification's view of the loop: \<open>passes fs k\<close> is \<open>k\<close> passes one after the
  other, and \<open>changing fs k\<close> says that each of the first \<open>k\<close> passes returned a text
  different from the one it started with.
\<close>

fun passes :: "filesystem \<Rightarrow> nat \<Rightarrow> string \<Rightarrow> state \<Rightarrow> (exn + string) \<times> state" where
  "passes fs 0 text st = (Inr text, st)"
| "passes fs (Suc k) text st =
     (case process_once fs text st of
        (Inl e, st') \<Rightarrow> (Inl e, st')
      | (Inr t, st') \<Rightarrow> passes fs k t st')"

fun changing :: "filesystem \<Rightarrow> nat \<Rightarrow> string \<Rightarrow> state \<Rightarrow> bool" where
  "changing fs 0 text st = True"
| "changing fs (Suc k) text st =
     (case process_once fs text st of
        (Inl e, st') \<Rightarrow> False
      | (Inr t, st') \<Rightarrow> t \<noteq> text \<and> changing fs k t st')"

text \<open>
  Filesystems for the examples: only the base directory; a file \<open>foo.tex\<close> both under
  the base directory and in the working directory; a file holding a label token; nothing
  at all; and two files that include themselves.
\<close>

definition fs_only_dir :: filesystem where
  "fs_only_dir p = (if p = Path ''exercises'' then Directory else NoEntry)"

definition fs_two_files :: filesystem where
  "fs_two_files p =
     (if p = Path ''exercises'' then Directory
      else if p = Path ''exercises/foo.tex'' then RegularFile ''inside''
      else if p = Path ''foo.tex'' then RegularFile ''outside''
      else NoEntry)"

definition fs_review :: filesystem where
  "fs_review p =
     (if p = Path ''exercises'' then Directory
      else if p = Path ''foo.tex'' then RegularFile (bs # ''printreview'')
      else NoEntry)"



definition fs_self :: filesystem where
  "fs_self p =
     (if p = Path ''exercises'' then Directory
      else if p = Path ''x.tex'' then RegularFile (directive ''exinput'' ''x'')
      else if p = Path ''y.tex'' then RegularFile (''A'' @ directive ''exinput'' ''y'')
      else NoEntry)"

section \<open>Path normalisation\<close>

lemma split_on_no_sep: "sep \<notin> set s \<Longrightarrow> split_on sep s = [s]"
  by (induction s) auto

lemma Path_simple:
  assumes "s \<noteq> []" and "CHR ''/'' \<notin> set s" and "s \<noteq> ''.''"
  shows "Path s = \<lparr>root = [], parts = [s]\<rparr>"
proof -
  from assms(1,2) have "hd s \<noteq> CHR ''/''"
    by (cases s) auto
  then have "splitroot s = ([], s)"
    by (simp add: splitroot_def)
  with assms show ?thesis
    by (simp add: Path_def split_on_no_sep)
qed

lemma rfind_absent: "c \<notin> set s \<Longrightarrow> rfind s c = - 1"
  by (simp add: rfind_def)

lemma rfind_last_dot:
  assumes "CHR ''.'' \<notin> set ext"
  shows "rfind (stem @ CHR ''.'' # ext) CHR ''.'' = int (length stem)"
proof -
  have "takeWhile (\<lambda>x. x \<noteq> CHR ''.'') (rev ext @ CHR ''.'' # rev stem) = rev ext"
    using assms by (auto simp: takeWhile_tail)
  then show ?thesis
    by (simp add: rfind_def)
qed

lemma suffix_none:
  "CHR ''.'' \<notin> set s \<Longrightarrow> path_suffix \<lparr>root = r, parts = [s]\<rparr> = []"
  by (simp add: path_suffix_def path_name_def rfind_absent)

lemma suffix_ext:
  assumes "stem \<noteq> []" and "CHR ''.'' \<notin> set ext" and "ext \<noteq> []"
  shows "path_suffix \<lparr>root = r, parts = [stem @ CHR ''.'' # ext]\<rparr> = CHR ''.'' # ext"
  using assms by (simp add: path_suffix_def path_name_def rfind_last_dot Let_def)

text \<open>
  Claim C9. For a plain file name \<open>bar\<close> (not empty, no slash, no dot) the arguments
  \<open>bar\<close>, \<open>bar.tex\<close> and \<open>bar.txt\<close> all normalise to the one path \<open>bar.tex\<close>:
  a different suffix is replaced, so the result is not \<open>bar.txt.tex\<close>.
\<close>

theorem ensure_tex_extension_normalises:
  assumes "bar \<noteq> []" and "CHR ''/'' \<notin> set bar" and "CHR ''.'' \<notin> set bar"
  shows "ensure_tex_extension bar = Inr \<lparr>root = [], parts = [bar @ ''.tex'']\<rparr>
       \<and> ensure_tex_extension (bar @ ''.tex'') = Inr \<lparr>root = [], parts = [bar @ ''.tex'']\<rparr>
       \<and> ensure_tex_extension (bar @ ''.txt'') = Inr \<lparr>root = [], parts = [bar @ ''.tex'']\<rparr>
       \<and> ensure_tex_extension (bar @ ''.txt'') \<noteq> Inr \<lparr>root = [], parts = [bar @ ''.txt.tex'']\<rparr>"
proof -
  have bar_dot: "bar \<noteq> ''.''"
    using assms(3) by auto
  have p0: "Path bar = \<lparr>root = [], parts = [bar]\<rparr>"
    using assms bar_dot by (simp add: Path_simple)
  have p1: "Path (bar @ ''.tex'') = \<lparr>root = [], parts = [bar @ ''.tex'']\<rparr>"
    using assms by (intro Path_simple) (auto simp: append_eq_Cons_conv)
  have p2: "Path (bar @ ''.txt'') = \<lparr>root = [], parts = [bar @ ''.txt'']\<rparr>"
    using assms by (intro Path_simple) (auto simp: append_eq_Cons_conv)
  have s0: "path_suffix \<lparr>root = [], parts = [bar]\<rparr> = []"
    using assms(3) by (rule suffix_none)
  have s1: "path_suffix \<lparr>root = [], parts = [bar @ ''.tex'']\<rparr> = ''.tex''"
    using suffix_ext [of bar "''tex''" "[]"] assms(1) by simp
  have s2: "path_suffix \<lparr>root = [], parts = [bar @ ''.txt'']\<rparr> = ''.txt''"
    using suffix_ext [of bar "''txt''" "[]"] assms(1) by simp
  have e0: "ensure_tex_extension bar = Inr \<lparr>root = [], parts = [bar @ ''.tex'']\<rparr>"
    using assms(1) by (simp add: ensure_tex_extension_def p0 s0 with_suffix_def path_name_def)
  have e1: "ensure_tex_extension (bar @ ''.tex'') = Inr \<lparr>root = [], parts = [bar @ ''.tex'']\<rparr>"
    by (simp add: ensure_tex_extension_def p1 s1)
  have e2: "ensure_tex_extension (bar @ ''.txt'') = Inr \<lparr>root = [], parts = [bar @ ''.tex'']\<rparr>"
    by (simp add: ensure_tex_extension_def p2 s2 with_suffix_def path_name_def)
  from e0 e1 e2 show ?thesis
    by simp
qed

theorem ensure_tex_extension_normalises_witness:
  "ensure_tex_extension ''bar'' = Inr \<lparr>root = [], parts = [''bar.tex'']\<rparr>
 \<and> ensure_tex_extension ''bar.tex'' = Inr \<lparr>root = [], parts = [''bar.tex'']\<rparr>
 \<and> ensure_tex_extension ''bar.txt'' = Inr \<lparr>root = [], parts = [''bar.tex'']\<rparr>
 \<and> ensure_tex_extension ''bar.txt'' \<noteq> Inr \<lparr>root = [], parts = [''bar.txt.tex'']\<rparr>"
  using ensure_tex_extension_normalises [of "''bar''"] by simp

section \<open>How the scans treat text around a directive\<close>

lemma map_out_simps [simp]:
  "map_out g (Inl e, st) = (Inl e, st)"
  "map_out g (Inr out, st) = (Inr (g out), st)"
  by (simp_all add: map_out_def)

lemma map_out_comp: "map_out g (map_out h r) = map_out (\<lambda>x. g (h x)) r"
  by (cases r) (auto simp: map_out_def split: sum.splits)

lemma sub_pieces_Plain: "sub_pieces f (Plain c # ps) st = map_out ((#) c) (sub_pieces f ps st)"
  by (simp add: map_out_def)

lemma sub_pieces_plain_prefix:
  "sub_pieces f (map Plain X @ ps) st = map_out ((@) X) (sub_pieces f ps st)"
proof (induction X)
  case Nil
  show ?case by (cases "sub_pieces f ps st") (auto simp: map_out_def split: sum.splits)
next
  case (Cons x X)
  then show ?case
    by (simp add: map_out_comp del: sub_pieces.simps add: sub_pieces_Plain)
qed

lemma match_input_first: "c \<noteq> bs \<Longrightarrow> match_input name (c # cs) = None"
  by (simp add: match_input_def)

lemma pieces_plain: "bs \<notin> set X \<Longrightarrow> pieces name (X @ Y) = map Plain X @ pieces name Y"
  by (induction X) (auto simp: match_input_first)

lemma prefix_into_backslash:
  assumes "prefix (b # L) (X @ Y)" and "X \<noteq> []" and "Y = [] \<or> hd Y \<notin> set L"
  shows "prefix (b # L) X"
proof (cases "length (b # L) \<le> length X")
  case True
  with assms(1) show ?thesis
    by (metis prefix_length_prefix prefixI)
next
  case False
  then have len: "length X < length (b # L)" by simp
  from assms(1) obtain Z where Z: "X @ Y = (b # L) @ Z" by (auto simp: prefix_def)
  from len Z have "Y \<noteq> []" 
    by (metis append_Nil2 length_append not_add_less1)
  have "(X @ Y) ! length X = hd Y"
    using \<open>Y \<noteq> []\<close> by (simp add: nth_append hd_conv_nth)
  moreover have "((b # L) @ Z) ! length X = (b # L) ! length X"
    using len nth_append [of "b # L" Z "length X"] by simp
  moreover have "(b # L) ! length X \<in> set L"
    using len assms(2) by (cases X) auto
  ultimately show ?thesis
    using assms(3) Z \<open>Y \<noteq> []\<close> by auto
qed

lemma match_input_None_free:
  assumes "\<not> sublist (bs # name @ ''{'') (x # X)" and "bs \<notin> set name" and "Y = [] \<or> hd Y = bs"
  shows "match_input name (x # X @ Y) = None"
proof -
  have "\<not> prefix (bs # name @ ''{'') ((x # X) @ Y)"
  proof
    assume "prefix (bs # name @ ''{'') ((x # X) @ Y)"
    then have "prefix (bs # name @ ''{'') (x # X)"
      using assms(2,3) by (intro prefix_into_backslash [of bs "name @ ''{''" "x # X" Y]) (auto simp: bs_def)
    with assms(1) show False
      by (auto simp: sublist_def prefix_def)
  qed
  then have "after_prefix (bs # name @ ''{'') (x # X @ Y) = None"
    using after_prefix_None [of "bs # name @ ''{''" "x # X @ Y"] by simp
  then show ?thesis
    unfolding match_input_def by (simp only: option.case)
qed

lemma pieces_opener_free:
  assumes "\<not> sublist (bs # name @ ''{'') X" and "bs \<notin> set name" and "Y = [] \<or> hd Y = bs"
  shows "pieces name (X @ Y) = map Plain X @ pieces name Y"
  using assms(1)
proof (induction X)
  case Nil
  show ?case by simp
next
  case (Cons x X)
  from Cons.prems have "\<not> sublist (bs # name @ ''{'') X"
    by (meson sublist_Cons_right)
  with Cons.IH have "pieces name (X @ Y) = map Plain X @ pieces name Y" by simp
  moreover have "match_input name (x # X @ Y) = None"
    using Cons.prems assms(2,3) by (rule match_input_None_free)
  ultimately show ?case by simp
qed

lemma match_input_directive:
  assumes "arg \<noteq> []" and "CHR ''}'' \<notin> set arg"
  shows "match_input name (bs # name @ ''{'' @ arg @ ''}'' @ Y)
           = Some (bs # name @ ''{'' @ arg @ ''}'', arg, Y)"
proof -
  have a: "after_prefix (bs # name @ ''{'') (bs # name @ ''{'' @ arg @ ''}'' @ Y) = Some (arg @ ''}'' @ Y)"
    by (simp add: after_prefix_Some del: after_prefix.simps)
  have t: "takeWhile (\<lambda>c. c \<noteq> CHR ''}'') (arg @ CHR ''}'' # Y) = arg"
    using assms(2) by (auto simp: takeWhile_tail)
  have d: "dropWhile (\<lambda>c. c \<noteq> CHR ''}'') (arg @ CHR ''}'' # Y) = CHR ''}'' # Y"
    using assms(2) by (auto simp: dropWhile_append3)
  show ?thesis
    unfolding match_input_def a using assms(1) by (simp add: t d del: after_prefix.simps)
qed

lemma pieces_directive:
  assumes "arg \<noteq> []" and "CHR ''}'' \<notin> set arg"
  shows "pieces name (bs # name @ ''{'' @ arg @ ''}'' @ Y)
           = Occurrence (bs # name @ ''{'' @ arg @ ''}'') arg # pieces name Y"
  using match_input_directive [OF assms, of name Y] by simp


lemma match_token_first: "tok \<noteq> [] \<Longrightarrow> c \<noteq> hd tok \<Longrightarrow> match_token tok (c # cs) = None"
  by (cases tok) (simp_all add: match_token_def)

lemma token_plain:
  "tok \<noteq> [] \<Longrightarrow> hd tok \<notin> set X \<Longrightarrow> re_sub_token tok lab (X @ Y) = X @ re_sub_token tok lab Y"
  by (induction X) (auto simp: match_token_first)

lemma match_token_context:
  assumes "X \<noteq> []" and "Y = [] \<or> (hd Y \<notin> set (tl tok) \<and> \<not> is_word_char (hd Y))"
  shows "match_token tok (X @ Y) = map_option (\<lambda>r. r @ Y) (match_token tok X)"
proof (cases tok)
  case Nil
  then show ?thesis by (simp add: match_token_def)
next
  case (Cons b L)
  show ?thesis
  proof (cases "prefix tok X")
    case True
    then obtain X' where X': "X = tok @ X'" by (auto simp: prefix_def)
    have a1: "after_prefix tok (X @ Y) = Some (X' @ Y)"
      using X' by (simp add: after_prefix_Some del: after_prefix.simps)
    have a2: "after_prefix tok X = Some X'"
      using X' by (simp add: after_prefix_Some del: after_prefix.simps)
    show ?thesis
    proof (cases X')
      case Nil
      with assms(2) show ?thesis
        unfolding match_token_def a1 a2 by auto
    next
      case (Cons x' X'')
      then show ?thesis
        unfolding match_token_def a1 a2 by simp
    qed
  next
    case False
    have "\<not> prefix tok (X @ Y)"
    proof
      assume "prefix tok (X @ Y)"
      then have "prefix (b # L) X"
        using assms Cons by (intro prefix_into_backslash [of b L X Y]) auto
      with False Cons show False by simp
    qed
    then have "after_prefix tok (X @ Y) = None" "after_prefix tok X = None"
      using False by (simp_all add: after_prefix_None del: after_prefix.simps)
    then show ?thesis
      unfolding match_token_def by simp
  qed
qed

lemma token_split:
  assumes "Y = [] \<or> (hd Y \<notin> set (tl tok) \<and> \<not> is_word_char (hd Y))"
  shows "re_sub_token tok lab (X @ Y) = re_sub_token tok lab X @ re_sub_token tok lab Y"
  using assms
proof (induction tok lab X rule: re_sub_token.induct)
  case (1 tok lab)
  show ?case by simp
next
  case (2 tok lab c cs)
  have ctx: "match_token tok ((c # cs) @ Y) = map_option (\<lambda>r. r @ Y) (match_token tok (c # cs))"
    using "2.prems" by (intro match_token_context) auto
  show ?case
  proof (cases "match_token tok (c # cs)")
    case None
    with ctx "2.IH" "2.prems" show ?thesis by simp
  next
    case (Some rest)
    with ctx "2.IH" "2.prems" show ?thesis by simp
  qed
qed


lemma match_token_None_free:
  assumes "\<not> sublist tok (x # X)" and "Y = [] \<or> hd Y \<notin> set (tl tok)"
  shows "match_token tok (x # X @ Y) = None"
proof (cases tok)
  case Nil
  with assms(1) show ?thesis by simp
next
  case (Cons b L)
  have "\<not> prefix tok ((x # X) @ Y)"
  proof
    assume "prefix tok ((x # X) @ Y)"
    then have "prefix (b # L) (x # X)"
      using assms(2) Cons by (intro prefix_into_backslash [of b L "x # X" Y]) auto
    with assms(1) Cons show False
      by (auto simp: sublist_def prefix_def)
  qed
  then have "after_prefix tok (x # X @ Y) = None"
    using after_prefix_None [of tok "x # X @ Y"] by simp
  then show ?thesis
    unfolding match_token_def by (simp only: option.case)
qed

lemma token_free:
  assumes "\<not> sublist tok X" and "Y = [] \<or> hd Y \<notin> set (tl tok)"
  shows "re_sub_token tok lab (X @ Y) = X @ re_sub_token tok lab Y"
  using assms(1)
proof (induction X)
  case Nil
  show ?case by simp
next
  case (Cons x X)
  from Cons.prems have "\<not> sublist tok X"
    by (meson sublist_Cons_right)
  with Cons.IH have "re_sub_token tok lab (X @ Y) = X @ re_sub_token tok lab Y" by simp
  moreover have "match_token tok (x # X @ Y) = None"
    using Cons.prems assms(2) by (rule match_token_None_free)
  ultimately show ?case by simp
qed


lemma token_over_body:
  assumes "tok \<noteq> []" and "hd tok \<notin> set body" and "match_token tok (b # body @ Y) = None"
  shows "re_sub_token tok lab (b # body @ Y) = b # body @ re_sub_token tok lab Y"
  using assms(3) token_plain [OF assms(1,2)] by simp

lemma bs_not_word: "\<not> is_word_char bs"
  by (simp add: is_word_char_def bs_def)

lemma map_out_id: "map_out (\<lambda>x. x) r = r"
  by (cases r) (auto simp: map_out_def split: sum.splits)

lemma sub_pieces_all_plain: "sub_pieces f (map Plain X) st = (Inr X, st)"
  using sub_pieces_plain_prefix [of f X "[]" st] by simp

lemma match_input_other:
  "match_input ''exsetinput'' (bs # ''exinput{'' @ Z) = None"
  "match_input ''exinput'' (bs # ''exsetinput{'' @ Z) = None"
  by (simp_all add: match_input_def)


lemma pieces_skip_block:
  assumes "\<not> sublist (bs # name @ ''{'') pre" and "bs \<notin> set name"
    and "match_input name (bs # body @ post) = None" and "bs \<notin> set body"
  shows "pieces name (pre @ bs # body @ post) = map Plain (pre @ bs # body) @ pieces name post"
proof -
  have "pieces name (pre @ bs # body @ post) = map Plain pre @ pieces name (bs # body @ post)"
    using assms(1,2) by (intro pieces_opener_free) auto
  also have "pieces name (bs # body @ post) = Plain bs # pieces name (body @ post)"
    using assms(3) by simp
  also have "pieces name (body @ post) = map Plain body @ pieces name post"
    using assms(4) by (rule pieces_plain)
  finally show ?thesis by simp
qed

lemma pieces_free:
  assumes "\<not> sublist (bs # name @ ''{'') text" and "bs \<notin> set name"
  shows "pieces name text = map Plain text"
  using pieces_opener_free [OF assms, of "[]"] by simp

lemma re_sub_input_skip:
  assumes "\<not> sublist (bs # name @ ''{'') pre" and "bs \<notin> set name"
    and "match_input name (bs # body @ post) = None" and "bs \<notin> set body"
  shows "re_sub_input name f (pre @ bs # body @ post) st
           = map_out ((@) (pre @ bs # body)) (re_sub_input name f post st)"
  unfolding re_sub_input_def pieces_skip_block [OF assms]
  by (rule sub_pieces_plain_prefix)

lemma re_sub_input_free:
  assumes "\<not> sublist (bs # name @ ''{'') text" and "bs \<notin> set name"
  shows "re_sub_input name f text st = (Inr text, st)"
  unfolding re_sub_input_def pieces_free [OF assms] by (rule sub_pieces_all_plain)

lemma re_sub_input_directive:
  assumes "\<not> sublist (bs # name @ ''{'') pre" and "bs \<notin> set name"
    and "arg \<noteq> []" and "CHR ''}'' \<notin> set arg"
  shows "re_sub_input name f (pre @ directive name arg @ post) st =
           (case f (directive name arg) arg st of
              (Inl e, s) \<Rightarrow> (Inl e, s)
            | (Inr r, s) \<Rightarrow> map_out (\<lambda>out. pre @ r @ out) (re_sub_input name f post s))"
proof -
  have "pieces name (pre @ directive name arg @ post)
          = map Plain pre @ pieces name (directive name arg @ post)"
    using assms(1,2) by (intro pieces_opener_free) (auto simp: directive_def)
  also have "pieces name (directive name arg @ post)
          = Occurrence (directive name arg) arg # pieces name post"
    using pieces_directive [OF assms(3,4), of name post] by (simp add: directive_def)
  finally have p: "pieces name (pre @ directive name arg @ post)
          = map Plain pre @ Occurrence (directive name arg) arg # pieces name post" .
  show ?thesis
    unfolding re_sub_input_def p sub_pieces_plain_prefix
    by (auto simp: map_out_def split: sum.splits prod.splits)
qed

subsection \<open>Label substitution around a directive\<close>

lemma token_not_at_opener:
  assumes "tok = bs # ''printconcepts'' \<or> tok = bs # ''printproblems'' \<or> tok = bs # ''printreview''"
    and "name = ''exinput'' \<or> name = ''exsetinput''"
  shows "match_token tok (bs # name @ ''{'' @ Z) = None"
  using assms by (auto simp: match_token_def)

lemma token_around:
  assumes "tok = bs # ''printconcepts'' \<or> tok = bs # ''printproblems'' \<or> tok = bs # ''printreview''"
    and "name = ''exinput'' \<or> name = ''exsetinput''" and "bs \<notin> set body"
  shows "re_sub_token tok lab (pre @ bs # name @ ''{'' @ body @ post)
           = re_sub_token tok lab pre @ bs # name @ ''{'' @ body @ re_sub_token tok lab post"
proof -
  have tl: "bs \<notin> set (tl tok)" and ne: "tok \<noteq> []" and hd: "hd tok = bs"
    using assms(1) by (auto simp: bs_def)
  have "re_sub_token tok lab (pre @ bs # name @ ''{'' @ body @ post)
          = re_sub_token tok lab pre @ re_sub_token tok lab (bs # name @ ''{'' @ body @ post)"
    using tl bs_not_word by (intro token_split) simp
  also have "re_sub_token tok lab (bs # name @ ''{'' @ body @ post)
          = bs # re_sub_token tok lab ((name @ ''{'' @ body) @ post)"
    using token_not_at_opener [OF assms(1,2), of "body @ post"] by simp
  also have "re_sub_token tok lab ((name @ ''{'' @ body) @ post)
          = (name @ ''{'' @ body) @ re_sub_token tok lab post"
    using ne hd assms(2,3) by (intro token_plain) (auto simp: bs_def)
  finally show ?thesis by simp
qed

lemma tokens_around:
  assumes "name = ''exinput'' \<or> name = ''exsetinput''" and "bs \<notin> set body"
  shows "replace_print_tokens (pre @ bs # name @ ''{'' @ body @ post)
           = replace_print_tokens pre @ bs # name @ ''{'' @ body @ replace_print_tokens post"
  unfolding replace_print_tokens_def Let_def
  by (simp only: token_around [OF _ assms] simp_thms)

lemma tokens_free:
  assumes "directive_free t"
  shows "replace_print_tokens t = t"
proof -
  have "re_sub_token tok lab t = t" if "\<not> sublist tok t" for tok lab
    using token_free [OF that, of "[]" lab] by simp
  with assms show ?thesis
    by (simp add: replace_print_tokens_def directive_free_def)
qed

section \<open>A missing file\<close>

lemma returns_at_fixed_point:
  assumes "process_once fs text st = (Inr text, st')" and "0 < max_passes"
  shows "process_with_recursion fs text max_passes st = (Inr text, st')"
proof -
  from assms(2) obtain n where "nat max_passes = Suc n"
    by (metis Suc_pred' zero_less_nat_eq)
  with assms(1) show ?thesis
    by (simp add: process_with_recursion_def)
qed

lemma repl_missing_file:
  assumes "path_exists fs EXERCISES_DIR" and "ensure_tex_extension arg = Inr p" and "\<not> is_file fs p"
  shows "repl fs g arg st = (Inr g, st\<lparr>logged := logged st @ [MissingFile p]\<rparr>)"
  using assms by (simp add: repl_def load_file_if_exists_def)

lemma process_once_missing_file:
  assumes "path_exists fs EXERCISES_DIR"
    and "ensure_tex_extension foo = Inr p" and "\<not> is_file fs p"
    and "foo \<noteq> []" and "CHR ''}'' \<notin> set foo" and "bs \<notin> set foo"
    and "directive_free pre" and "directive_free post"
  shows "process_once fs (pre @ directive ''exinput'' foo @ post) st
           = (Inr (pre @ directive ''exinput'' foo @ post),
              st\<lparr>logged := logged st @ [MissingFile p]\<rparr>)"
proof -
  let ?D = "directive ''exinput'' foo"
  have D: "?D = bs # ''exinput{'' @ foo @ ''}''"
    by (simp add: directive_def)
  have nbs: "bs \<notin> set ''exinput''" "bs \<notin> set ''exsetinput''"
    by (simp_all add: bs_def)
  have free: "\<not> sublist (bs # ''exsetinput'' @ ''{'') pre" "\<not> sublist (bs # ''exsetinput'' @ ''{'') post"
    "\<not> sublist (bs # ''exinput'' @ ''{'') pre" "\<not> sublist (bs # ''exinput'' @ ''{'') post"
    using assms(7,8) by (simp_all add: directive_free_def)
  have s1: "replace_exsetinput fs (pre @ ?D @ post) st = (Inr (pre @ ?D @ post), st)"
  proof -
    have "re_sub_input ''exsetinput'' (repl fs) (pre @ bs # (''exinput{'' @ foo @ ''}'') @ post) st
            = map_out ((@) (pre @ bs # (''exinput{'' @ foo @ ''}'')))
                (re_sub_input ''exsetinput'' (repl fs) post st)"
      using free(1) nbs(2) match_input_other(1) [of "foo @ ''}'' @ post"] assms(6)
      by (intro re_sub_input_skip) (auto simp: bs_def)
    also have "re_sub_input ''exsetinput'' (repl fs) post st = (Inr post, st)"
      using free(2) nbs(2) by (rule re_sub_input_free)
    finally show ?thesis
      by (simp add: replace_exsetinput_def D)
  qed
  have s2: "replace_exinput fs (pre @ ?D @ post) st
              = (Inr (pre @ ?D @ post), st\<lparr>logged := logged st @ [MissingFile p]\<rparr>)"
    unfolding replace_exinput_def
      re_sub_input_directive [OF free(3) nbs(1) assms(4,5)]
      repl_missing_file [OF assms(1,2,3)]
    using re_sub_input_free [OF free(4) nbs(1)] by simp
  have s3: "replace_print_tokens (pre @ ?D @ post) = pre @ ?D @ post"
    using tokens_around [of "''exinput''" "foo @ ''}''" pre post] assms(6)
      tokens_free [OF assms(7)] tokens_free [OF assms(8)]
    by (simp add: D bs_def)
  show ?thesis
    by (simp add: process_once_def s1 s2 s3)
qed

text \<open>
  Claim C4. The base directory exists, the document is \<open>pre\<close>, the directive
  \<^verbatim>\<open>\exinput{foo}\<close> and \<open>post\<close>, with no other directive in \<open>pre\<close> and \<open>post\<close>, and
  the path the resolver looks up for \<open>foo\<close> is not a file. Then the full expansion returns
  the document as it was, and over the whole run the log grows by exactly one record, the
  missing-file warning for that path (\<open>foo.tex\<close>). The run makes at least one pass.
\<close>

theorem missing_file_leaves_document:
  assumes "path_exists fs EXERCISES_DIR"
    and "ensure_tex_extension foo = Inr p" and "\<not> is_file fs p"
    and "foo \<noteq> []" and "CHR ''}'' \<notin> set foo" and "bs \<notin> set foo"
    and "directive_free pre" and "directive_free post"
    and "0 < max_passes"
  shows "process_with_recursion fs (pre @ directive ''exinput'' foo @ post) max_passes st
           = (Inr (pre @ directive ''exinput'' foo @ post),
              st\<lparr>logged := logged st @ [MissingFile p]\<rparr>)"
  using process_once_missing_file [OF assms(1-8)] assms(9)
  by (rule returns_at_fixed_point)

theorem missing_file_leaves_document_witness:
  "path_exists fs_only_dir EXERCISES_DIR
   \<and> ensure_tex_extension ''foo'' = Inr \<lparr>root = [], parts = [''foo.tex'']\<rparr>
   \<and> \<not> is_file fs_only_dir \<lparr>root = [], parts = [''foo.tex'']\<rparr>
   \<and> directive_free ''See '' \<and> directive_free '' now.''
   \<and> process_with_recursion fs_only_dir (''See '' @ directive ''exinput'' ''foo'' @ '' now.'') 10
        initial_state
      = (Inr (''See '' @ directive ''exinput'' ''foo'' @ '' now.''),
         \<lparr>MISSING_DIR_WARNED = False, logged = [MissingFile \<lparr>root = [], parts = [''foo.tex'']\<rparr>]\<rparr>)"
proof -
  have h1: "path_exists fs_only_dir EXERCISES_DIR"
    by (simp add: path_exists_def fs_only_dir_def EXERCISES_DIR_def)
  have h2: "ensure_tex_extension ''foo'' = Inr \<lparr>root = [], parts = [''foo.tex'']\<rparr>"
    by code_simp
  have h3: "\<not> is_file fs_only_dir \<lparr>root = [], parts = [''foo.tex'']\<rparr>"
    by code_simp
  have h4: "directive_free ''See ''" and h5: "directive_free '' now.''"
    by code_simp+
  have h6: "''foo'' \<noteq> []" "CHR ''}'' \<notin> set ''foo''" "bs \<notin> set ''foo''" "(0::int) < 10"
    by (simp_all add: bs_def)
  show ?thesis
    using missing_file_leaves_document [OF h1 h2 h3 h6(1,2,3) h4 h5 h6(4), of initial_state]
      h1 h2 h3 h4 h5
    by (simp add: initial_state_def)
qed

section \<open>Where the included file is looked up\<close>

lemma bs_not_in_names: "bs \<notin> set ''exinput''" "bs \<notin> set ''exsetinput''"
  by (simp_all add: bs_def)

lemma re_sub_input_Nil: "re_sub_input name f [] st = (Inr [], st)"
  by (simp add: re_sub_input_def)

lemma repl_readable:
  assumes "path_exists fs EXERCISES_DIR" and "ensure_tex_extension arg = Inr p"
    and "fs p = RegularFile contents"
  shows "repl fs g arg st = (Inr contents, st)"
  using assms by (simp add: repl_def load_file_if_exists_def is_file_def read_text_def)

lemma re_sub_input_whole_directive:
  assumes "bs \<notin> set name" and "arg \<noteq> []" and "CHR ''}'' \<notin> set arg"
    and "f (directive name arg) arg st = (Inr r, st')"
  shows "re_sub_input name f (directive name arg) st = (Inr r, st')"
  using re_sub_input_directive [of name "[]" arg f "[]" st] assms
  by (simp add: re_sub_input_Nil)

text \<open>
  Claim C1, as the code has it. When the base directory exists, the file whose contents
  replace \<^verbatim>\<open>\exinput{p}\<close> or \<^verbatim>\<open>\exsetinput{p}\<close> is the one at the path \<open>p\<close> with the
  \<^verbatim>\<open>.tex\<close> extension enforced, taken as it is written, so relative to the working
  directory. The base directory is checked for existence and is not put before \<open>p\<close>.
\<close>

theorem resolver_reads_path_as_written:
  assumes "path_exists fs EXERCISES_DIR"
    and "ensure_tex_extension arg = Inr p" and "fs p = RegularFile contents"
    and "arg \<noteq> []" and "CHR ''}'' \<notin> set arg"
  shows "load_file_if_exists fs arg st = (Inr (Some contents), st)
       \<and> replace_exinput fs (directive ''exinput'' arg) st = (Inr contents, st)
       \<and> replace_exsetinput fs (directive ''exsetinput'' arg) st = (Inr contents, st)"
proof -
  have "load_file_if_exists fs arg st = (Inr (Some contents), st)"
    using assms(2,3) by (simp add: load_file_if_exists_def is_file_def read_text_def)
  moreover have "replace_exinput fs (directive ''exinput'' arg) st = (Inr contents, st)"
    unfolding replace_exinput_def
    using bs_not_in_names(1) assms(4,5) repl_readable [OF assms(1,2,3)]
    by (rule re_sub_input_whole_directive)
  moreover have "replace_exsetinput fs (directive ''exsetinput'' arg) st = (Inr contents, st)"
    unfolding replace_exsetinput_def
    using bs_not_in_names(2) assms(4,5) repl_readable [OF assms(1,2,3)]
    by (rule re_sub_input_whole_directive)
  ultimately show ?thesis by simp
qed

theorem resolver_reads_path_as_written_witness:
  "path_exists fs_two_files EXERCISES_DIR
   \<and> ensure_tex_extension ''foo'' = Inr \<lparr>root = [], parts = [''foo.tex'']\<rparr>
   \<and> fs_two_files \<lparr>root = [], parts = [''foo.tex'']\<rparr> = RegularFile ''outside''
   \<and> load_file_if_exists fs_two_files ''foo'' initial_state = (Inr (Some ''outside''), initial_state)
   \<and> replace_exinput fs_two_files (directive ''exinput'' ''foo'') initial_state
        = (Inr ''outside'', initial_state)
   \<and> replace_exsetinput fs_two_files (directive ''exsetinput'' ''foo'') initial_state
        = (Inr ''outside'', initial_state)"
proof -
  have h1: "path_exists fs_two_files EXERCISES_DIR"
    by code_simp
  have h2: "ensure_tex_extension ''foo'' = Inr \<lparr>root = [], parts = [''foo.tex'']\<rparr>"
    by code_simp
  have h3: "fs_two_files \<lparr>root = [], parts = [''foo.tex'']\<rparr> = RegularFile ''outside''"
    by code_simp
  have h4: "''foo'' \<noteq> []" "CHR ''}'' \<notin> set ''foo''"
    by simp_all
  show ?thesis
    using resolver_reads_path_as_written [OF h1 h2 h3 h4, of initial_state] h1 h2 h3
    by simp
qed

text \<open>
  The claim as it is written fails: with a file \<open>foo.tex\<close> under the base directory and
  another \<open>foo.tex\<close> in the working directory, the directive is replaced by the second.
\<close>

theorem base_directory_file_not_read:
  "path_exists fs_two_files EXERCISES_DIR
   \<and> fs_two_files (Path ''exercises/foo.tex'') = RegularFile ''inside''
   \<and> fs_two_files (Path ''foo.tex'') = RegularFile ''outside''
   \<and> replace_exinput fs_two_files (directive ''exinput'' ''foo'') initial_state
        = (Inr ''outside'', initial_state)
   \<and> fst (replace_exinput fs_two_files (directive ''exinput'' ''foo'') initial_state)
        \<noteq> Inr ''inside''"
  by code_simp

section \<open>A label inside an included file\<close>

lemma exsetinput_skips_exinput:
  assumes "bs \<notin> set arg"
  shows "replace_exsetinput fs (directive ''exinput'' arg) st = (Inr (directive ''exinput'' arg), st)"
proof -
  have "re_sub_input ''exsetinput'' (repl fs) ([] @ bs # (''exinput{'' @ arg @ ''}'') @ []) st
          = map_out ((@) ([] @ bs # (''exinput{'' @ arg @ ''}'')))
              (re_sub_input ''exsetinput'' (repl fs) [] st)"
    using bs_not_in_names(2) match_input_other(1) [of "arg @ ''}''"] assms
    by (intro re_sub_input_skip) (auto simp: bs_def)
  then show ?thesis
    by (simp add: replace_exsetinput_def directive_def re_sub_input_Nil)
qed

lemma tokens_of_printreview: "replace_print_tokens (bs # ''printreview'') = ''Review''"
  by code_simp

lemma process_once_Review: "process_once fs ''Review'' st = (Inr ''Review'', st)"
proof -
  have f: "\<not> sublist (bs # ''exsetinput'' @ ''{'') ''Review''" "\<not> sublist (bs # ''exinput'' @ ''{'') ''Review''"
    by code_simp+
  have "replace_print_tokens ''Review'' = ''Review''"
    by code_simp
  then show ?thesis
    by (simp add: process_once_def replace_exsetinput_def replace_exinput_def
        re_sub_input_free [OF f(1) bs_not_in_names(2)] re_sub_input_free [OF f(2) bs_not_in_names(1)])
qed

text \<open>
  Claim C2, as the code has it. The file looked up for \<open>foo\<close> holds exactly the token
  \<^verbatim>\<open>\printreview\<close> and the document is \<^verbatim>\<open>\exinput{foo}\<close>. One pass includes the file
  and substitutes the label, so the first pass already returns \<open>Review\<close>; the second pass
  changes nothing, and the result of the full expansion is \<open>Review\<close>, with no warning.
\<close>

theorem included_label_resolved_in_same_pass:
  assumes "path_exists fs EXERCISES_DIR"
    and "ensure_tex_extension foo = Inr p" and "fs p = RegularFile (bs # ''printreview'')"
    and "foo \<noteq> []" and "CHR ''}'' \<notin> set foo" and "bs \<notin> set foo"
    and "2 \<le> max_passes"
  shows "process_once fs (directive ''exinput'' foo) st = (Inr ''Review'', st)
       \<and> process_once fs ''Review'' st = (Inr ''Review'', st)
       \<and> process_with_recursion fs (directive ''exinput'' foo) max_passes st = (Inr ''Review'', st)"
proof -
  have s2: "replace_exinput fs (directive ''exinput'' foo) st = (Inr (bs # ''printreview''), st)"
    unfolding replace_exinput_def
    using bs_not_in_names(1) assms(4,5) repl_readable [OF assms(1,2,3)]
    by (rule re_sub_input_whole_directive)
  have once: "process_once fs (directive ''exinput'' foo) st = (Inr ''Review'', st)"
    by (simp add: process_once_def exsetinput_skips_exinput [OF assms(6)] s2 tokens_of_printreview)
  have differ: "''Review'' \<noteq> directive ''exinput'' foo"
    by (simp add: directive_def bs_def)
  from assms(7) have "2 \<le> nat max_passes"
    by simp
  then obtain n where n: "nat max_passes = Suc (Suc n)"
    by (metis add_2_eq_Suc le_Suc_ex)
  have "process_with_recursion fs (directive ''exinput'' foo) max_passes st = (Inr ''Review'', st)"
    using differ by (simp add: process_with_recursion_def n once process_once_Review)
  with once process_once_Review show ?thesis
    by simp
qed

theorem included_label_resolved_in_same_pass_witness:
  "path_exists fs_review EXERCISES_DIR
   \<and> ensure_tex_extension ''foo'' = Inr \<lparr>root = [], parts = [''foo.tex'']\<rparr>
   \<and> fs_review \<lparr>root = [], parts = [''foo.tex'']\<rparr> = RegularFile (bs # ''printreview'')
   \<and> process_once fs_review (directive ''exinput'' ''foo'') initial_state = (Inr ''Review'', initial_state)
   \<and> process_once fs_review ''Review'' initial_state = (Inr ''Review'', initial_state)
   \<and> process_with_recursion fs_review (directive ''exinput'' ''foo'') 10 initial_state
        = (Inr ''Review'', initial_state)"
proof -
  have h1: "path_exists fs_review EXERCISES_DIR"
    by code_simp
  have h2: "ensure_tex_extension ''foo'' = Inr \<lparr>root = [], parts = [''foo.tex'']\<rparr>"
    by code_simp
  have h3: "fs_review \<lparr>root = [], parts = [''foo.tex'']\<rparr> = RegularFile (bs # ''printreview'')"
    by code_simp
  have h4: "''foo'' \<noteq> []" "CHR ''}'' \<notin> set ''foo''" "bs \<notin> set ''foo''" "(2::int) \<le> 10"
    by (simp_all add: bs_def)
  show ?thesis
    using included_label_resolved_in_same_pass [OF h1 h2 h3 h4, of initial_state] h1 h2 h3
    by simp
qed

text \<open>
  The claim as it is written fails: after one pass the text is not the content of the
  file, it is already \<open>Review\<close>.
\<close>

theorem first_pass_is_not_file_content:
  "fs_review (Path ''foo.tex'') = RegularFile (bs # ''printreview'')
   \<and> process_once fs_review (directive ''exinput'' ''foo'') initial_state
        = (Inr ''Review'', initial_state)
   \<and> fst (process_once fs_review (directive ''exinput'' ''foo'') initial_state)
        \<noteq> Inr (bs # ''printreview'')"
  by code_simp

section \<open>Unresolved directives\<close>





section \<open>The empty argument\<close>





section \<open>The loop of the expander\<close>

lemma for_passes_cases:
  "(\<exists>k<n. \<exists>t s r s'. changing fs k doc st \<and> passes fs k doc st = (Inr t, s)
        \<and> process_once fs t s = (r, s')
        \<and> ((r = Inr t \<and> for_passes fs n doc st = (Inr (Returned t), s'))
           \<or> (\<exists>e. r = Inl e \<and> for_passes fs n doc st = (Inl e, s'))))
   \<or> (\<exists>t s. changing fs n doc st \<and> passes fs n doc st = (Inr t, s)
        \<and> for_passes fs n doc st = (Inr (Exhausted t), s))"
proof (induction n arbitrary: doc st)
  case 0
  show ?case by simp
next
  case (Suc n)
  obtain r1 s1 where p: "process_once fs doc st = (r1, s1)"
    by (cases "process_once fs doc st")
  show ?case
  proof (cases r1)
    case (Inl e)
    with p have "changing fs 0 doc st \<and> passes fs 0 doc st = (Inr doc, st)
        \<and> process_once fs doc st = (r1, s1)
        \<and> (\<exists>e. r1 = Inl e \<and> for_passes fs (Suc n) doc st = (Inl e, s1))"
      by simp
    then show ?thesis by blast
  next
    case (Inr t1)
    show ?thesis
    proof (cases "t1 = doc")
      case True
      with p Inr have "changing fs 0 doc st \<and> passes fs 0 doc st = (Inr doc, st)
          \<and> process_once fs doc st = (r1, s1)
          \<and> r1 = Inr doc \<and> for_passes fs (Suc n) doc st = (Inr (Returned doc), s1)"
        by simp
      then show ?thesis by blast
    next
      case False
      have step: "for_passes fs (Suc n) doc st = for_passes fs n t1 s1"
        "\<And>k. changing fs (Suc k) doc st = changing fs k t1 s1"
        "\<And>k. passes fs (Suc k) doc st = passes fs k t1 s1"
        using p Inr False by simp_all
      from Suc.IH [of t1 s1] show ?thesis
      proof
        assume "\<exists>k<n. \<exists>t s r s'. changing fs k t1 s1 \<and> passes fs k t1 s1 = (Inr t, s)
          \<and> process_once fs t s = (r, s')
          \<and> ((r = Inr t \<and> for_passes fs n t1 s1 = (Inr (Returned t), s'))
             \<or> (\<exists>e. r = Inl e \<and> for_passes fs n t1 s1 = (Inl e, s')))"
        then obtain k t s r s' where k: "k < n" "changing fs k t1 s1" "passes fs k t1 s1 = (Inr t, s)"
          "process_once fs t s = (r, s')"
          "(r = Inr t \<and> for_passes fs n t1 s1 = (Inr (Returned t), s'))
             \<or> (\<exists>e. r = Inl e \<and> for_passes fs n t1 s1 = (Inl e, s'))"
          by blast
        then have "Suc k < Suc n \<and> changing fs (Suc k) doc st \<and> passes fs (Suc k) doc st = (Inr t, s)
          \<and> process_once fs t s = (r, s')
          \<and> ((r = Inr t \<and> for_passes fs (Suc n) doc st = (Inr (Returned t), s'))
             \<or> (\<exists>e. r = Inl e \<and> for_passes fs (Suc n) doc st = (Inl e, s')))"
          unfolding step by simp
        then show ?thesis by blast
      next
        assume "\<exists>t s. changing fs n t1 s1 \<and> passes fs n t1 s1 = (Inr t, s)
          \<and> for_passes fs n t1 s1 = (Inr (Exhausted t), s)"
        then have "\<exists>t s. changing fs (Suc n) doc st \<and> passes fs (Suc n) doc st = (Inr t, s)
          \<and> for_passes fs (Suc n) doc st = (Inr (Exhausted t), s)"
          unfolding step .
        then show ?thesis by blast
      qed
    qed
  qed
qed

text \<open>
  Claim C5. For every input text, filesystem, state and \<open>max_passes\<close>, the run of the
  expander is one of two. Either, after \<open>k\<close> passes that each changed the text, with
  \<open>k\<close> below \<open>max_passes\<close>, the next pass returns the text it started with, and that
  text is returned at once with the state after that pass (or that pass raises, and this
  is the result). Or all \<open>max_passes\<close> passes changed the text: then the text after the
  last pass is returned and the log gets one record more, the pass-budget warning.
\<close>

theorem expander_stops_at_fixed_point_or_budget:
  "(\<exists>k<nat max_passes. \<exists>t s r s'.
        changing fs k input_text st \<and> passes fs k input_text st = (Inr t, s)
        \<and> process_once fs t s = (r, s') \<and> (r = Inr t \<or> (\<exists>e. r = Inl e))
        \<and> process_with_recursion fs input_text max_passes st = (r, s'))
   \<or> (\<exists>t s. changing fs (nat max_passes) input_text st
        \<and> passes fs (nat max_passes) input_text st = (Inr t, s)
        \<and> process_with_recursion fs input_text max_passes st
            = (Inr t, s\<lparr>logged := logged s @ [ReachedMaxPasses max_passes]\<rparr>))"
  using for_passes_cases [of "nat max_passes" fs input_text st]
proof
  assume "\<exists>k<nat max_passes. \<exists>t s r s'. changing fs k input_text st \<and> passes fs k input_text st = (Inr t, s)
        \<and> process_once fs t s = (r, s')
        \<and> ((r = Inr t \<and> for_passes fs (nat max_passes) input_text st = (Inr (Returned t), s'))
           \<or> (\<exists>e. r = Inl e \<and> for_passes fs (nat max_passes) input_text st = (Inl e, s')))"
  then obtain k t s r s' where k: "k < nat max_passes" "changing fs k input_text st"
    "passes fs k input_text st = (Inr t, s)" "process_once fs t s = (r, s')"
    "(r = Inr t \<and> for_passes fs (nat max_passes) input_text st = (Inr (Returned t), s'))
           \<or> (\<exists>e. r = Inl e \<and> for_passes fs (nat max_passes) input_text st = (Inl e, s'))"
    by blast
  from k(5) have "(r = Inr t \<or> (\<exists>e. r = Inl e))
      \<and> process_with_recursion fs input_text max_passes st = (r, s')"
    by (auto simp: process_with_recursion_def)
  with k(1-4) show ?thesis by blast
next
  assume "\<exists>t s. changing fs (nat max_passes) input_text st
        \<and> passes fs (nat max_passes) input_text st = (Inr t, s)
        \<and> for_passes fs (nat max_passes) input_text st = (Inr (Exhausted t), s)"
  then show ?thesis
    by (auto simp: process_with_recursion_def)
qed

section \<open>A missing base directory\<close>














section \<open>A file that includes itself\<close>

lemma no_bs_no_sublist: "bs \<notin> set A \<Longrightarrow> \<not> sublist (bs # L) A"
  using set_mono_sublist [of "bs # L" A] by auto

lemma directive_free_plain: "bs \<notin> set A \<Longrightarrow> directive_free A"
  by (simp add: directive_free_def no_bs_no_sublist)

lemma process_once_inclusion:
  assumes "path_exists fs EXERCISES_DIR"
    and "ensure_tex_extension x = Inr p" and "fs p = RegularFile contents"
    and "x \<noteq> []" and "CHR ''}'' \<notin> set x" and "bs \<notin> set x"
    and "bs \<notin> set A" and "bs \<notin> set B"
  shows "replace_exsetinput fs (A @ directive ''exinput'' x @ B) st
           = (Inr (A @ directive ''exinput'' x @ B), st)"
    and "replace_exinput fs (A @ directive ''exinput'' x @ B) st = (Inr (A @ contents @ B), st)"
proof -
  let ?D = "directive ''exinput'' x"
  have D: "?D = bs # ''exinput{'' @ x @ ''}''"
    by (simp add: directive_def)
  have "re_sub_input ''exsetinput'' (repl fs) (A @ bs # (''exinput{'' @ x @ ''}'') @ B) st
          = map_out ((@) (A @ bs # (''exinput{'' @ x @ ''}'')))
              (re_sub_input ''exsetinput'' (repl fs) B st)"
    using no_bs_no_sublist [OF assms(7)] bs_not_in_names(2) match_input_other(1) [of "x @ ''}'' @ B"] assms(6)
    by (intro re_sub_input_skip) (auto simp: bs_def)
  also have "re_sub_input ''exsetinput'' (repl fs) B st = (Inr B, st)"
    using no_bs_no_sublist [OF assms(8)] bs_not_in_names(2) by (rule re_sub_input_free)
  finally show "replace_exsetinput fs (A @ ?D @ B) st = (Inr (A @ ?D @ B), st)"
    by (simp add: replace_exsetinput_def D)
  show "replace_exinput fs (A @ ?D @ B) st = (Inr (A @ contents @ B), st)"
    unfolding replace_exinput_def
      re_sub_input_directive [OF no_bs_no_sublist [OF assms(7)] bs_not_in_names(1) assms(4,5)]
      repl_readable [OF assms(1,2,3)]
    using re_sub_input_free [OF no_bs_no_sublist [OF assms(8)] bs_not_in_names(1)] by simp
qed

lemma process_once_self_inclusion:
  assumes "path_exists fs EXERCISES_DIR"
    and "ensure_tex_extension x = Inr p"
    and "fs p = RegularFile (pre @ directive ''exinput'' x @ post)"
    and "x \<noteq> []" and "CHR ''}'' \<notin> set x" and "bs \<notin> set x"
    and "bs \<notin> set pre" and "bs \<notin> set post"
    and "bs \<notin> set A" and "bs \<notin> set B"
  shows "process_once fs (A @ directive ''exinput'' x @ B) st
           = (Inr ((A @ pre) @ directive ''exinput'' x @ (post @ B)), st)"
proof -
  let ?D = "directive ''exinput'' x"
  have D: "?D = bs # ''exinput{'' @ x @ ''}''"
    by (simp add: directive_def)
  have "replace_print_tokens ((A @ pre) @ bs # ''exinput'' @ ''{'' @ (x @ ''}'') @ (post @ B))
          = replace_print_tokens (A @ pre) @ bs # ''exinput'' @ ''{'' @ (x @ ''}'')
              @ replace_print_tokens (post @ B)"
    using assms(6) by (intro tokens_around) (auto simp: bs_def)
  moreover have "replace_print_tokens (A @ pre) = A @ pre" "replace_print_tokens (post @ B) = post @ B"
    using assms(7-10) by (simp_all add: tokens_free directive_free_plain)
  ultimately have tok: "replace_print_tokens ((A @ pre) @ ?D @ (post @ B)) = (A @ pre) @ ?D @ (post @ B)"
    by (simp add: D)
  show ?thesis
    using tok
    by (simp add: process_once_def process_once_inclusion [OF assms(1-6) assms(9,10)])
qed

lemma concat_replicate_snoc: "concat (replicate k s) @ s = concat (replicate (Suc k) s)"
  by (induction k) simp_all

lemma for_passes_self_inclusion:
  assumes "path_exists fs EXERCISES_DIR"
    and "ensure_tex_extension x = Inr p"
    and "fs p = RegularFile (pre @ directive ''exinput'' x @ post)"
    and "x \<noteq> []" and "CHR ''}'' \<notin> set x" and "bs \<notin> set x"
    and "bs \<notin> set pre" and "bs \<notin> set post" and "pre @ post \<noteq> []"
  shows "for_passes fs n
           (concat (replicate k pre) @ directive ''exinput'' x @ concat (replicate k post)) st
         = (Inr (Exhausted (concat (replicate (k + n) pre) @ directive ''exinput'' x
                   @ concat (replicate (k + n) post))), st)"
proof (induction n arbitrary: k)
  case 0
  show ?case by simp
next
  case (Suc n)
  let ?A = "concat (replicate k pre)" and ?B = "concat (replicate k post)"
  let ?D = "directive ''exinput'' x"
  have plain: "bs \<notin> set ?A" "bs \<notin> set ?B"
    using assms(7,8) by auto
  have once: "process_once fs (?A @ ?D @ ?B) st = (Inr ((?A @ pre) @ ?D @ (post @ ?B)), st)"
    using assms(1-8) plain by (rule process_once_self_inclusion)
  have grow: "(?A @ pre) @ ?D @ (post @ ?B)
                = concat (replicate (Suc k) pre) @ ?D @ concat (replicate (Suc k) post)"
    using concat_replicate_snoc [of k pre] by simp
  have "length ((?A @ pre) @ ?D @ (post @ ?B)) \<noteq> length (?A @ ?D @ ?B)"
    using assms(9) by auto
  then have differ: "(?A @ pre) @ ?D @ (post @ ?B) \<noteq> ?A @ ?D @ ?B"
    by metis
  have "for_passes fs (Suc n) (?A @ ?D @ ?B) st
          = for_passes fs n ((?A @ pre) @ ?D @ (post @ ?B)) st"
    using once differ by simp
  also have "\<dots> = for_passes fs n (concat (replicate (Suc k) pre) @ ?D @ concat (replicate (Suc k) post)) st"
    by (simp only: grow)
  also have "\<dots> = (Inr (Exhausted (concat (replicate (Suc k + n) pre) @ ?D
                   @ concat (replicate (Suc k + n) post))), st)"
    by (rule Suc.IH)
  finally show ?case by simp
qed

text \<open>
  Claim C3, as the code has it. The expansion of \<^verbatim>\<open>\exinput{x}\<close> always ends. When the
  file looked up for \<open>x\<close> holds the directive with plain text around it, every pass
  makes the text longer, so all \<open>max_passes\<close> passes run, the result has the plain text
  \<open>max_passes\<close> times on each side, and the one pass-budget warning is logged. When the
  file holds the directive and nothing else, the first pass returns its own input: the
  run ends there, with no warning.
\<close>

theorem self_inclusion_ends:
  assumes "path_exists fs EXERCISES_DIR"
    and "ensure_tex_extension x = Inr p"
    and "x \<noteq> []" and "CHR ''}'' \<notin> set x" and "bs \<notin> set x"
  shows "(fs p = RegularFile (pre @ directive ''exinput'' x @ post)
            \<and> pre @ post \<noteq> [] \<and> bs \<notin> set pre \<and> bs \<notin> set post
          \<longrightarrow> process_with_recursion fs (directive ''exinput'' x) max_passes st
                = (Inr (concat (replicate (nat max_passes) pre) @ directive ''exinput'' x
                         @ concat (replicate (nat max_passes) post)),
                   st\<lparr>logged := logged st @ [ReachedMaxPasses max_passes]\<rparr>))
       \<and> (fs p = RegularFile (directive ''exinput'' x) \<and> 0 < max_passes
          \<longrightarrow> process_with_recursion fs (directive ''exinput'' x) max_passes st
                = (Inr (directive ''exinput'' x), st))"
proof (intro conjI impI)
  assume a: "fs p = RegularFile (pre @ directive ''exinput'' x @ post)
            \<and> pre @ post \<noteq> [] \<and> bs \<notin> set pre \<and> bs \<notin> set post"
  have "for_passes fs (nat max_passes)
           (concat (replicate 0 pre) @ directive ''exinput'' x @ concat (replicate 0 post)) st
         = (Inr (Exhausted (concat (replicate (0 + nat max_passes) pre) @ directive ''exinput'' x
                   @ concat (replicate (0 + nat max_passes) post))), st)"
    using assms(1,2) _ assms(3,4,5)
    by (rule for_passes_self_inclusion) (use a in simp_all)
  then show "process_with_recursion fs (directive ''exinput'' x) max_passes st
                = (Inr (concat (replicate (nat max_passes) pre) @ directive ''exinput'' x
                         @ concat (replicate (nat max_passes) post)),
                   st\<lparr>logged := logged st @ [ReachedMaxPasses max_passes]\<rparr>)"
    by (simp add: process_with_recursion_def)
next
  assume b: "fs p = RegularFile (directive ''exinput'' x) \<and> 0 < max_passes"
  have "process_once fs ([] @ directive ''exinput'' x @ []) st
           = (Inr (([] @ []) @ directive ''exinput'' x @ ([] @ [])), st)"
    using assms(1,2) _ assms(3,4,5)
    by (rule process_once_self_inclusion) (use b in simp_all)
  then have "process_once fs (directive ''exinput'' x) st = (Inr (directive ''exinput'' x), st)"
    by simp
  then show "process_with_recursion fs (directive ''exinput'' x) max_passes st
                = (Inr (directive ''exinput'' x), st)"
    using b by (intro returns_at_fixed_point) simp_all
qed

theorem self_inclusion_ends_witness:
  "path_exists fs_self EXERCISES_DIR
   \<and> ensure_tex_extension ''y'' = Inr \<lparr>root = [], parts = [''y.tex'']\<rparr>
   \<and> fs_self \<lparr>root = [], parts = [''y.tex'']\<rparr> = RegularFile (''A'' @ directive ''exinput'' ''y'' @ [])
   \<and> process_with_recursion fs_self (directive ''exinput'' ''y'') 10 initial_state
        = (Inr (''AAAAAAAAAA'' @ directive ''exinput'' ''y''),
           \<lparr>MISSING_DIR_WARNED = False, logged = [ReachedMaxPasses 10]\<rparr>)
   \<and> ensure_tex_extension ''x'' = Inr \<lparr>root = [], parts = [''x.tex'']\<rparr>
   \<and> fs_self \<lparr>root = [], parts = [''x.tex'']\<rparr> = RegularFile (directive ''exinput'' ''x'')
   \<and> process_with_recursion fs_self (directive ''exinput'' ''x'') 10 initial_state
        = (Inr (directive ''exinput'' ''x''), initial_state)"
proof -
  have h1: "path_exists fs_self EXERCISES_DIR"
    by code_simp
  have y2: "ensure_tex_extension ''y'' = Inr \<lparr>root = [], parts = [''y.tex'']\<rparr>"
    and x2: "ensure_tex_extension ''x'' = Inr \<lparr>root = [], parts = [''x.tex'']\<rparr>"
    by code_simp+
  have y3: "fs_self \<lparr>root = [], parts = [''y.tex'']\<rparr> = RegularFile (''A'' @ directive ''exinput'' ''y'' @ [])"
    and x3: "fs_self \<lparr>root = [], parts = [''x.tex'']\<rparr> = RegularFile (directive ''exinput'' ''x'')"
    by code_simp+
  have y4: "''y'' \<noteq> []" "CHR ''}'' \<notin> set ''y''" "bs \<notin> set ''y''"
    and x4: "''x'' \<noteq> []" "CHR ''}'' \<notin> set ''x''" "bs \<notin> set ''x''"
    by (simp_all add: bs_def)
  have r: "concat (replicate (nat 10) ''A'') = ''AAAAAAAAAA''"
    by code_simp
  have plain: "''A'' @ [] \<noteq> []" "bs \<notin> set ''A''" "bs \<notin> set []"
    by (simp_all add: bs_def)
  show ?thesis
    using self_inclusion_ends [OF h1 y2 y4, of "''A''" "[]" 10 initial_state]
      self_inclusion_ends [OF h1 x2 x4, of "[]" "[]" 10 initial_state]
      h1 y2 y3 x2 x3 r plain
    by (simp add: initial_state_def)
qed

text \<open>
  The claim as it is written fails: when the file holds exactly the directive that
  includes it, the run ends at the first pass and logs nothing.
\<close>

theorem self_inclusion_without_warning:
  "path_exists fs_self EXERCISES_DIR
   \<and> fs_self (Path ''x.tex'') = RegularFile (directive ''exinput'' ''x'')
   \<and> process_with_recursion fs_self (directive ''exinput'' ''x'') 10 initial_state
        = (Inr (directive ''exinput'' ''x''), initial_state)
   \<and> ReachedMaxPasses 10
        \<notin> set (logged (snd (process_with_recursion fs_self (directive ''exinput'' ''x'') 10 initial_state)))"
  by code_simp

section \<open>The label tokens in a text\<close>














end
